theory Spec2Isabelle
  imports Complex_Main "HOL-Library.Word"
begin

section \<open>Signature image preprocessing (cmiyc/preprocessing.py)\<close>

text \<open>
  A shallow embedding of \<^verbatim>\<open>preprocess_image\<close>, \<^verbatim>\<open>pad_image_square_center\<close> and
  \<^verbatim>\<open>batch_preprocess\<close>. The Python code drives three libraries (PIL, scipy, numpy);
  each library call the code makes is a definition of its own below, named after the
  call, so that the pipeline reads like the source.
\<close>

subsection \<open>Errors\<close>

text \<open>The exceptions the code can raise; a failing call returns \<open>Inl\<close> of one of them.\<close>

datatype error = IndexError | ValueError | FileNotFoundError | OSError

subsection \<open>Images\<close>

text \<open>
  A PIL image: its size and its pixels, stored row by row (\<open>rows im ! y ! x\<close> is the
  pixel in column \<open>x\<close> of row \<open>y\<close>). The pixel type \<open>'p\<close> depends on the image's mode;
  a mode \<^verbatim>\<open>L\<close> image has pixels of type \<open>8 word\<close>. PIL accepts a width or height of 0.
\<close>

record 'p image =
  width :: nat
  height :: nat
  rows :: "'p list list"

definition wf_image :: "'p image \<Rightarrow> bool" where
  "wf_image im \<longleftrightarrow>
     length (rows im) = height im \<and> list_all (\<lambda>r. length r = width im) (rows im)"

text \<open>\<^verbatim>\<open>image.getdata()\<close>: the pixels as one flat sequence, row after row.\<close>

definition getdata :: "'p image \<Rightarrow> 'p list" where
  "getdata im = concat (rows im)"

text \<open>
  \<^verbatim>\<open>image.convert('L')\<close>: a new image of the same size where every pixel is the 8-bit
  luminance of the source pixel. The per-pixel conversion \<open>to_L\<close> is the one PIL
  selects for the source mode; the two below are those of modes \<^verbatim>\<open>L\<close> (a copy) and
  \<^verbatim>\<open>RGB\<close> (ITU-R 601-2 luma in 16-bit fixed point).
\<close>

definition convert_L :: "('p \<Rightarrow> 8 word) \<Rightarrow> 'p image \<Rightarrow> 8 word image" where
  "convert_L to_L im =
     \<lparr>width = width im, height = height im, rows = map (map to_L) (rows im)\<rparr>"

definition l2l :: "8 word \<Rightarrow> 8 word" where
  "l2l p = p"

definition rgb2l :: "8 word \<times> 8 word \<times> 8 word \<Rightarrow> 8 word" where
  "rgb2l c = (case c of (r, g, b) \<Rightarrow>
     word_of_int ((uint r * 19595 + uint g * 38470 + uint b * 7471 + 32768) div 65536))"

subsection \<open>The statistical mode (scipy.stats.mode)\<close>

text \<open>
  \<^verbatim>\<open>scipy.stats.mode\<close> walks the distinct values in ascending order and keeps a value
  only when its count is strictly larger than the best count so far, starting from
  value 0 with count 0. It returns the pair of arrays \<^verbatim>\<open>(mode, count)\<close>, both empty for
  an empty input.
\<close>

definition unique :: "int list \<Rightarrow> int list" where
  "unique a = sort (remdups a)"

definition mode_step :: "int list \<Rightarrow> int \<Rightarrow> int \<times> nat \<Rightarrow> int \<times> nat" where
  "mode_step a score old =
     (let counts = count_list a score
      in (if snd old < counts then score else fst old, max counts (snd old)))"

definition mode :: "int list \<Rightarrow> int list \<times> nat list" where
  "mode a =
     (if a = [] then ([], [])
      else (let r = fold (mode_step a) (unique a) (0, 0) in ([fst r], [snd r])))"

text \<open>Python indexing \<^verbatim>\<open>xs[0]\<close>: IndexError on an empty sequence.\<close>

definition index0 :: "'a list \<Rightarrow> error + 'a" where
  "index0 xs = (case xs of [] \<Rightarrow> Inl IndexError | x # _ \<Rightarrow> Inr x)"

subsection \<open>The product \<^verbatim>\<open>0.90 * m\<close> in binary64 and its truncation\<close>

text \<open>
  The literal \<^verbatim>\<open>0.90\<close> is the binary64 number \<open>8106479329266893 / 2^53\<close>. For an
  integer \<open>0 \<le> m < 2^53\<close> (exactly representable), \<^verbatim>\<open>0.90 * m\<close> is the exact product
  \<open>8106479329266893 * m / 2^53\<close> rounded to 53 significant bits, ties to even, and
  \<^verbatim>\<open>int(...)\<close> drops the fractional part.
\<close>

definition significand_090 :: int where
  "significand_090 = 8106479329266893"

function shift53 :: "int \<Rightarrow> nat" where
  "shift53 n = (if n < 9007199254740992 then 0 else Suc (shift53 (n div 2)))"
  by pat_completeness auto
termination
  by (relation "measure nat") auto

definition round_half_even :: "int \<Rightarrow> nat \<Rightarrow> int" where
  "round_half_even n s =
     (let q = n div 2 ^ s; r = n mod 2 ^ s
      in if 2 ^ s < 2 * r \<or> (2 * r = 2 ^ s \<and> odd q) then q + 1 else q)"

definition int_mul_090 :: "int \<Rightarrow> int" where
  "int_mul_090 m =
     (let n = significand_090 * m; s = shift53 n
      in (round_half_even n s * 2 ^ s) div 9007199254740992)"

subsection \<open>Binarization (lines 34 to 38 of preprocess_image)\<close>

text \<open>\<^verbatim>\<open>threshold = int(0.90 * mode(image.getdata())[0][0])\<close>\<close>

definition threshold_of :: "8 word image \<Rightarrow> error + int" where
  "threshold_of im =
     (case index0 (fst (mode (map uint (getdata im)))) of
        Inl e \<Rightarrow> Inl e
      | Inr m \<Rightarrow> Inr (int_mul_090 m))"

text \<open>
  \<^verbatim>\<open>lut = [0] * threshold + [255] * (256 - threshold)\<close>; a list times a negative
  number is the empty list.
\<close>

definition lut_of :: "int \<Rightarrow> int list" where
  "lut_of threshold = replicate (nat threshold) 0 @ replicate (nat (256 - threshold)) 255"

text \<open>
  \<^verbatim>\<open>image.point(lut)\<close> on a mode \<^verbatim>\<open>L\<close> image: the table must have 256 entries
  (ValueError otherwise); each entry is clipped to 8 bits and every pixel \<open>p\<close> is
  replaced by entry \<open>p\<close>.
\<close>

definition clip8 :: "int \<Rightarrow> 8 word" where
  "clip8 v = (if v < 0 then 0 else if 255 < v then 255 else word_of_int v)"

definition point :: "int list \<Rightarrow> 8 word image \<Rightarrow> error + 8 word image" where
  "point lut im =
     (if length lut \<noteq> 256 then Inl ValueError
      else Inr (im\<lparr>rows := map (map (\<lambda>p. clip8 (lut ! unat p))) (rows im)\<rparr>))"

definition binarize :: "8 word image \<Rightarrow> error + 8 word image" where
  "binarize im =
     (case threshold_of im of
        Inl e \<Rightarrow> Inl e
      | Inr threshold \<Rightarrow> point (lut_of threshold) im)"

subsection \<open>Padding (pad_image_square_center)\<close>

text \<open>
  \<^verbatim>\<open>Image.new(mode, size, 'white')\<close>: an image of the given size with every pixel
  set to the mode's white, which for mode \<^verbatim>\<open>L\<close> is 255.
\<close>

definition white_L :: "8 word" where
  "white_L = 255"

definition Image_new :: "nat \<times> nat \<Rightarrow> 'p \<Rightarrow> 'p image" where
  "Image_new sz color =
     \<lparr>width = fst sz, height = snd sz, rows = replicate (snd sz) (replicate (fst sz) color)\<rparr>"

text \<open>
  \<^verbatim>\<open>new_image.paste(image, position)\<close> with a non-negative position: the region to
  copy is clipped to the destination, and each of its rows is copied over the
  destination row at the horizontal offset. The Python call updates \<^verbatim>\<open>new_image\<close> in
  place; the model returns the updated image.
\<close>

definition paste_row :: "'p list \<Rightarrow> 'p list \<Rightarrow> nat \<Rightarrow> nat \<Rightarrow> 'p list" where
  "paste_row out inp dx0 xsize = take dx0 out @ take xsize inp @ drop (dx0 + xsize) out"

definition paste :: "'p image \<Rightarrow> 'p image \<Rightarrow> nat \<times> nat \<Rightarrow> 'p image" where
  "paste imOut imIn position =
     (let dx0 = fst position; dy0 = snd position;
          xsize = min (width imIn) (width imOut - dx0);
          ysize = min (height imIn) (height imOut - dy0)
      in if xsize = 0 \<or> ysize = 0 then imOut
         else imOut\<lparr>rows :=
           fold (\<lambda>y rs. rs[y + dy0 := paste_row (rs ! (y + dy0)) (rows imIn ! y) dx0 xsize])
             [0..<ysize] (rows imOut)\<rparr>)"

text \<open>
  The function itself. \<open>white\<close> is the colour \<^verbatim>\<open>'white'\<close> resolves to in the image's
  mode. \<open>new_size\<close> is at least the width and the height, so neither subtraction is
  negative.
\<close>

definition pad_image_square_center :: "'p \<Rightarrow> 'p image \<Rightarrow> 'p image" where
  "pad_image_square_center white im =
     (let new_size = max (width im) (height im);
          new_image = Image_new (new_size, new_size) white;
          position = ((new_size - width im) div 2, (new_size - height im) div 2)
      in paste new_image im position)"

subsection \<open>Resizing and conversion to an array\<close>

text \<open>
  \<^verbatim>\<open>image.resize(size, Image.BILINEAR)\<close> on a mode \<^verbatim>\<open>L\<close> image: ValueError unless
  both target dimensions are positive; otherwise a new mode \<^verbatim>\<open>L\<close> image of exactly the
  target size. PIL's interpolation arithmetic is the parameter \<open>resample\<close>, which
  gives the 8-bit value of the output pixel in column \<open>x\<close> of row \<open>y\<close>.
\<close>

type_synonym resampler = "8 word image \<Rightarrow> nat \<times> nat \<Rightarrow> nat \<Rightarrow> nat \<Rightarrow> 8 word"

definition resize :: "resampler \<Rightarrow> 8 word image \<Rightarrow> nat \<times> nat \<Rightarrow> error + 8 word image" where
  "resize resample im sz =
     (if fst sz < 1 \<or> snd sz < 1 then Inl ValueError
      else Inr \<lparr>width = fst sz, height = snd sz,
                rows = map (\<lambda>y. map (\<lambda>x. resample im sz x y) [0..<fst sz]) [0..<snd sz]\<rparr>)"

text \<open>PIL's nearest-neighbour filter, a resampler to run the model on concrete images.\<close>

definition nearest :: resampler where
  "nearest im sz x y =
     rows im ! ((2 * y + 1) * height im div (2 * snd sz)) ! ((2 * x + 1) * width im div (2 * fst sz))"

text \<open>
  \<^verbatim>\<open>a.reshape(shape)\<close> for a flat array and a two-dimensional shape: ValueError unless
  the number of elements is the product of the shape.
\<close>

definition reshape :: "'a list \<Rightarrow> nat \<times> nat \<Rightarrow> error + 'a list list" where
  "reshape a shape =
     (if length a \<noteq> fst shape * snd shape then Inl ValueError
      else Inr (map (\<lambda>i. take (snd shape) (drop (i * snd shape) a)) [0..<fst shape]))"

subsection \<open>The pipeline (preprocess_image)\<close>

text \<open>
  The display is the list of figures shown so far; a figure lists, for each stage, its
  title, the size of its image and its colour map. \<open>images\<close> is the local list the
  source keeps for the plot. The float division by 255 is taken as exact division.
\<close>

type_synonym subplot = "string \<times> (nat \<times> nat) \<times> string option"

type_synonym figure = "subplot list"

type_synonym array2 = "real list list"

definition im_size :: "'p image \<Rightarrow> nat \<times> nat" where
  "im_size im = (width im, height im)"

definition preprocess_image ::
  "('p \<Rightarrow> 8 word) \<Rightarrow> resampler \<Rightarrow> 'p image \<Rightarrow> nat \<Rightarrow> bool \<Rightarrow> bool \<Rightarrow> figure list
     \<Rightarrow> (error + array2) \<times> figure list" where
  "preprocess_image to_L resample im final_res padding plot figs =
     (let images0 = [(''original'', im_size im, None)];
          gray = convert_L to_L im;
          images1 = images0 @ [(''gray scale'', im_size gray, Some ''gray'')]
      in case binarize gray of
           Inl e \<Rightarrow> (Inl e, figs)
         | Inr bw \<Rightarrow>
            (let images2 = images1 @ [(''black & white'', im_size bw, Some ''gray'')];
                 padded = (if padding then pad_image_square_center white_L bw else bw);
                 images3 = (if padding
                            then images2 @ [(''padding'', im_size padded, Some ''gray'')]
                            else images2)
             in case resize resample padded (final_res, final_res) of
                  Inl e \<Rightarrow> (Inl e, figs)
                | Inr resized \<Rightarrow>
                   (let images4 = images3 @ [(''resize'', im_size resized, Some ''gray'')];
                        figs' = (if plot then figs @ [images4] else figs)
                    in case reshape (map uint (getdata resized)) (final_res, final_res) of
                         Inl e \<Rightarrow> (Inl e, figs')
                       | Inr a \<Rightarrow> (Inr (map (map (\<lambda>v. real_of_int v / 255)) a), figs'))))"

subsection \<open>Files and the batch driver (batch_preprocess)\<close>

text \<open>
  A relative path is the list of its components: \<^verbatim>\<open>'data/clean/'\<close> is
  \<open>[''data'', ''clean'']\<close>. The world is the part of the machine the batch driver
  touches: the directories that exist (the working directory \<open>[]\<close> always does), the
  files and their contents, the standard output and the display.
\<close>

type_synonym path = "string list"

datatype 'p content = ImageFile "'p image" | NpyFile array2 | OtherFile

record 'p world =
  dirs :: "path set"
  files :: "path \<Rightarrow> 'p content option"
  stdout :: "string list"
  figures :: "figure list"

definition PATH_SAVE :: path where
  "PATH_SAVE = [''data'', ''clean'']"

definition PATH_TRAIN_GENUINE :: path where
  "PATH_TRAIN_GENUINE = [''data'', ''clean'', ''train-dutch-offline-genuine.npy'']"

definition PATH_TRAIN_FORGERIES :: path where
  "PATH_TRAIN_FORGERIES = [''data'', ''clean'', ''train-dutch-offline-forgeries.npy'']"

definition is_dir :: "'p world \<Rightarrow> path \<Rightarrow> bool" where
  "is_dir w p \<longleftrightarrow> p = [] \<or> p \<in> dirs w"

text \<open>
  The non-empty prefixes of a path, shortest first: the directories leading to it, and
  the path itself. A file at one of them is in the way of whatever needs a directory
  there.
\<close>

definition ancestors :: "path \<Rightarrow> path list" where
  "ancestors p = map (\<lambda>n. take n p) [1..<Suc (length p)]"

definition file_in_the_way :: "'p world \<Rightarrow> path \<Rightarrow> bool" where
  "file_in_the_way w p \<longleftrightarrow> list_ex (\<lambda>q. files w q \<noteq> None) (ancestors p)"

text \<open>
  \<^verbatim>\<open>Image.open(file)\<close> followed by the decoding the first use of the image triggers.
  Nothing at the path is FileNotFoundError. A directory at the path, a file where one of
  its directories should be, and a file that is not an image (PIL's
  UnidentifiedImageError) are all subclasses of OSError.
\<close>

definition Image_open :: "'p world \<Rightarrow> path \<Rightarrow> error + 'p image" where
  "Image_open w file =
     (case files w file of
        None \<Rightarrow>
          (if is_dir w file \<or> file_in_the_way w (butlast file) then Inl OSError
           else Inl FileNotFoundError)
      | Some (ImageFile im) \<Rightarrow> Inr im
      | Some _ \<Rightarrow> Inl OSError)"

text \<open>\<^verbatim>\<open>os.path.exists\<close> of a path written with a trailing slash: true for a directory only.\<close>

definition path_exists_dir :: "'p world \<Rightarrow> path \<Rightarrow> bool" where
  "path_exists_dir w p \<longleftrightarrow> is_dir w p"

text \<open>
  \<^verbatim>\<open>os.makedirs(p)\<close>: creates \<open>p\<close> and every missing ancestor; fails when \<open>p\<close> exists
  or a file is in the way.
\<close>

definition makedirs :: "path \<Rightarrow> 'p world \<Rightarrow> (error + unit) \<times> 'p world" where
  "makedirs p w =
     (if is_dir w p \<or> file_in_the_way w p then (Inl OSError, w)
      else (Inr (), w\<lparr>dirs := dirs w \<union> set (ancestors p)\<rparr>))"

text \<open>
  \<^verbatim>\<open>np.save(file, arr)\<close>: the extension \<^verbatim>\<open>.npy\<close> is appended to the file name unless
  it is there already; the directory of the file must exist (FileNotFoundError when it is
  missing, NotADirectoryError, an OSError, when a file is in its place); the destination
  must not be a directory (IsADirectoryError, an OSError); the file is created or
  overwritten. \<^verbatim>\<open>np.load\<close> reads back the array a \<^verbatim>\<open>.npy\<close> file holds.
\<close>

definition endswith :: "string \<Rightarrow> string \<Rightarrow> bool" where
  "endswith s suffix \<longleftrightarrow> length suffix \<le> length s \<and> drop (length s - length suffix) s = suffix"

definition npy_name :: "path \<Rightarrow> path" where
  "npy_name file =
     (case rev file of
        [] \<Rightarrow> [''.npy'']
      | name # d \<Rightarrow> rev d @ [if endswith name ''.npy'' then name else name @ ''.npy''])"

definition np_save :: "path \<Rightarrow> array2 \<Rightarrow> 'p world \<Rightarrow> (error + unit) \<times> 'p world" where
  "np_save file arr w =
     (let f = npy_name file
      in if \<not> is_dir w (butlast f)
         then (if file_in_the_way w (butlast f) then (Inl OSError, w)
               else (Inl FileNotFoundError, w))
         else if is_dir w f then (Inl OSError, w)
         else (Inr (), w\<lparr>files := (files w)(f \<mapsto> NpyFile arr)\<rparr>))"

definition np_load :: "'p world \<Rightarrow> path \<Rightarrow> error + array2" where
  "np_load w file =
     (case files w file of
        None \<Rightarrow> Inl FileNotFoundError
      | Some (NpyFile arr) \<Rightarrow> Inr arr
      | Some _ \<Rightarrow> Inl ValueError)"

text \<open>
  Writing to the standard output: \<^verbatim>\<open>print(s, end='')\<close> writes \<open>s\<close> as it is, and
  \<^verbatim>\<open>print(s)\<close> writes \<open>s\<close> followed by a newline. The decimal digits of
  \<^verbatim>\<open>'{}'.format(n)\<close> are \<open>str n\<close>.
\<close>

definition print :: "string \<Rightarrow> 'p world \<Rightarrow> 'p world" where
  "print s w = w\<lparr>stdout := stdout w @ [s]\<rparr>"

function str :: "nat \<Rightarrow> string" where
  "str n = (if n < 10 then [char_of (48 + n)] else str (n div 10) @ [char_of (48 + n mod 10)])"
  by pat_completeness auto
termination
  by (relation "measure id") auto

definition progress :: "nat \<Rightarrow> nat \<Rightarrow> string" where
  "progress row num_files = CHR 0x0D # str (row + 1) @ ''/'' @ str num_files"

text \<open>
  \<^verbatim>\<open>dataset[row] = im.reshape((1, -1))\<close>: the flattened sample replaces row \<open>row\<close>;
  ValueError when its length is not the row length.
\<close>

definition set_row :: "array2 \<Rightarrow> nat \<Rightarrow> array2 \<Rightarrow> error + array2" where
  "set_row dataset row im =
     (if row < length dataset \<and> length (concat im) = length (dataset ! row)
      then Inr (dataset[row := concat im]) else Inl ValueError)"

text \<open>
  What the body of the loop computes for one file: \<^verbatim>\<open>Image.open(file)\<close>, then
  \<^verbatim>\<open>preprocess_image\<close> without plots; the sample of the file, or the exception raised.
\<close>

definition sample_of ::
  "('p \<Rightarrow> 8 word) \<Rightarrow> resampler \<Rightarrow> nat \<Rightarrow> bool \<Rightarrow> 'p world \<Rightarrow> path \<Rightarrow> error + array2" where
  "sample_of to_L resample final_res padding w file =
     (case Image_open w file of
        Inl e \<Rightarrow> Inl e
      | Inr im \<Rightarrow> fst (preprocess_image to_L resample im final_res padding False (figures w)))"

text \<open>
  The loop \<^verbatim>\<open>for row, file in enumerate(files_list)\<close>, from row \<open>row\<close> on. An exception
  leaves the loop with the world as it is at that moment.
\<close>

fun batch_loop ::
  "('p \<Rightarrow> 8 word) \<Rightarrow> resampler \<Rightarrow> nat \<Rightarrow> bool \<Rightarrow> nat \<Rightarrow> nat \<Rightarrow> path list \<Rightarrow> array2 \<Rightarrow> 'p world
     \<Rightarrow> (error + array2) \<times> 'p world" where
  "batch_loop to_L resample final_res padding num_files row [] dataset w = (Inr dataset, w)"
| "batch_loop to_L resample final_res padding num_files row (file # rest) dataset w =
     (let w1 = print (progress row num_files) w
      in case Image_open w1 file of
           Inl e \<Rightarrow> (Inl e, w1)
         | Inr im \<Rightarrow>
            (case preprocess_image to_L resample im final_res padding False (figures w1) of
               (Inl e, figs) \<Rightarrow> (Inl e, w1\<lparr>figures := figs\<rparr>)
             | (Inr a, figs) \<Rightarrow>
                (case set_row dataset row a of
                   Inl e \<Rightarrow> (Inl e, w1\<lparr>figures := figs\<rparr>)
                 | Inr dataset' \<Rightarrow>
                    batch_loop to_L resample final_res padding num_files (row + 1) rest dataset'
                      (w1\<lparr>figures := figs\<rparr>))))"

text \<open>
  \<^verbatim>\<open>np.empty((num_files, final_res*final_res))\<close> leaves the contents of the array
  unspecified; the model starts from zeros, and the loop overwrites every row before the
  array is used.
\<close>

definition np_empty :: "nat \<times> nat \<Rightarrow> array2" where
  "np_empty shape = replicate (fst shape) (replicate (snd shape) 0)"

definition batch_preprocess ::
  "('p \<Rightarrow> 8 word) \<Rightarrow> resampler \<Rightarrow> path list \<Rightarrow> path \<Rightarrow> nat \<Rightarrow> bool \<Rightarrow> 'p world
     \<Rightarrow> (error + unit) \<times> 'p world" where
  "batch_preprocess to_L resample files_list dest_file final_res padding w =
     (let num_files = length files_list;
          dataset = np_empty (num_files, final_res * final_res)
      in case batch_loop to_L resample final_res padding num_files 0 files_list dataset w of
           (Inl e, w1) \<Rightarrow> (Inl e, w1)
         | (Inr dataset', w1) \<Rightarrow>
            (case (if \<not> path_exists_dir w1 PATH_SAVE then makedirs PATH_SAVE w1 else (Inr (), w1)) of
               (Inl e, w2) \<Rightarrow> (Inl e, w2)
             | (Inr _, w2) \<Rightarrow>
                (case np_save dest_file dataset' w2 of
                   (Inl e, w3) \<Rightarrow> (Inl e, w3)
                 | (Inr _, w3) \<Rightarrow> (Inr (), print ('' - Done!'' @ [CHR 0x0A]) w3))))"

subsection \<open>Sample data\<close>

text \<open>Small concrete inputs on which the model is run.\<close>

definition sample_gray :: "8 word image" where
  "sample_gray = \<lparr>width = 3, height = 2, rows = [[200, 200, 10], [200, 50, 190]]\<rparr>"

definition sample_binary :: "8 word image" where
  "sample_binary = \<lparr>width = 2, height = 2, rows = [[0, 255], [255, 0]]\<rparr>"

definition sample_uniform :: "8 word image" where
  "sample_uniform = \<lparr>width = 2, height = 2, rows = [[7, 7], [7, 7]]\<rparr>"

definition sample_wide :: "8 word image" where
  "sample_wide = \<lparr>width = 10, height = 4, rows =
     [[10, 11, 12, 13, 14, 15, 16, 17, 18, 19],
      [20, 21, 22, 23, 24, 25, 26, 27, 28, 29],
      [30, 31, 32, 33, 34, 35, 36, 37, 38, 39],
      [40, 41, 42, 43, 44, 45, 46, 47, 48, 49]]\<rparr>"

definition resized_rows :: "resampler \<Rightarrow> 8 word image \<Rightarrow> nat \<Rightarrow> 8 word list list" where
  "resized_rows resample im res =
     map (\<lambda>y. map (\<lambda>x. resample im (res, res) x y) [0..<res]) [0..<res]"

definition empty_image :: "8 word image" where
  "empty_image = \<lparr>width = 0, height = 0, rows = []\<rparr>"

text \<open>
  A world with two image files, a text file and an image file of size 0 by 0, and no
  directory besides the working directory.
\<close>

definition sample_world :: "8 word world" where
  "sample_world =
     \<lparr>dirs = {},
      files = [[''a.png''] \<mapsto> ImageFile sample_gray,
               [''b.png''] \<mapsto> ImageFile sample_uniform,
               [''c.txt''] \<mapsto> OtherFile,
               [''e.png''] \<mapsto> ImageFile empty_image],
      stdout = [], figures = []\<rparr>"

section \<open>Properties\<close>

subsection \<open>The threshold arithmetic\<close>

lemma int_mul_090_table:
  "list_all (\<lambda>m. int_mul_090 m = 9 * m div 10) (map int [0..<256])"
  by code_simp

lemma int_mul_090_byte:
  assumes "0 \<le> m" and "m < 256"
  shows "int_mul_090 m = 9 * m div 10"
proof -
  have "nat m \<in> set [0..<256]"
    using assms by auto
  then have "int (nat m) \<in> int ` set [0..<256]"
    by (rule imageI)
  then have "m \<in> set (map int [0..<256])"
    using assms by simp
  with int_mul_090_table show ?thesis
    unfolding list_all_iff by blast
qed

subsection \<open>The mode\<close>

lemma fold_mode_step:
  assumes "sorted ss" and "distinct ss" and "ss \<noteq> []"
    and "\<forall>v\<in>set ss. 0 < count_list a v"
  shows "fst (fold (mode_step a) ss (0, 0)) \<in> set ss
       \<and> snd (fold (mode_step a) ss (0, 0)) = count_list a (fst (fold (mode_step a) ss (0, 0)))
       \<and> (\<forall>v\<in>set ss. count_list a v < snd (fold (mode_step a) ss (0, 0))
             \<or> (count_list a v = snd (fold (mode_step a) ss (0, 0))
                 \<and> fst (fold (mode_step a) ss (0, 0)) \<le> v))"
  using assms
proof (induction ss rule: rev_induct)
  case Nil
  then show ?case by simp
next
  case (snoc x xs)
  show ?case
  proof (cases "xs = []")
    case True
    with snoc.prems show ?thesis
      by (simp add: mode_step_def Let_def)
  next
    case False
    let ?r = "fold (mode_step a) xs (0, 0)"
    have srt: "sorted xs" and dst: "distinct xs" and pos: "\<forall>v\<in>set xs. 0 < count_list a v"
      using snoc.prems by (auto simp: sorted_append)
    from snoc.IH [OF srt dst False pos]
    have ih1: "fst ?r \<in> set xs" and ih2: "snd ?r = count_list a (fst ?r)"
      and ih3: "\<forall>v\<in>set xs. count_list a v < snd ?r \<or> (count_list a v = snd ?r \<and> fst ?r \<le> v)"
      by blast+
    have le: "fst ?r \<le> x"
      using snoc.prems(1) ih1 by (auto simp: sorted_append)
    show ?thesis
    proof (cases "snd ?r < count_list a x")
      case True
      then have eq: "fold (mode_step a) (xs @ [x]) (0, 0) = (x, count_list a x)"
        by (simp add: mode_step_def Let_def max_def)
      show ?thesis
        unfolding eq using ih3 True by auto
    next
      case False
      then have eq: "fold (mode_step a) (xs @ [x]) (0, 0) = ?r"
        by (simp add: mode_step_def Let_def max_def prod_eq_iff)
      show ?thesis
        unfolding eq using ih1 ih2 ih3 False le by auto
    qed
  qed
qed

lemma count_list_pos: "v \<in> set a \<Longrightarrow> 0 < count_list a v"
  using count_list_0_iff [of a v] by auto

lemma count_list_notin: "v \<notin> set a \<Longrightarrow> count_list a v = 0"
  using count_list_0_iff [of a v] by auto

lemma unique_props: "sorted (unique a)" "distinct (unique a)" "set (unique a) = set a"
  by (simp_all add: unique_def)

lemma mode_nonempty:
  assumes "a \<noteq> []"
  shows "\<exists>m. mode a = ([m], [count_list a m]) \<and> m \<in> set a
           \<and> (\<forall>v. count_list a v \<le> count_list a m)
           \<and> (\<forall>v. count_list a v = count_list a m \<longrightarrow> m \<le> v)"
proof -
  let ?r = "fold (mode_step a) (unique a) (0, 0)"
  have ne: "unique a \<noteq> []"
    using assms unique_props(3) [of a] by (metis set_empty)
  have pos: "\<forall>v\<in>set (unique a). 0 < count_list a v"
    by (simp add: unique_props(3) count_list_pos)
  from fold_mode_step [OF unique_props(1) unique_props(2) ne pos]
  have r1: "fst ?r \<in> set a" and r2: "snd ?r = count_list a (fst ?r)"
    and r3: "\<forall>v\<in>set a. count_list a v < snd ?r \<or> (count_list a v = snd ?r \<and> fst ?r \<le> v)"
    unfolding unique_props(3) by blast+
  have pos_m: "0 < count_list a (fst ?r)"
    using r1 by (rule count_list_pos)
  have a1: "count_list a v \<le> count_list a (fst ?r)" for v
  proof (cases "v \<in> set a")
    case True
    then show ?thesis using r3 r2 by force
  next
    case False
    then show ?thesis by (simp add: count_list_notin)
  qed
  have a2: "count_list a v = count_list a (fst ?r) \<longrightarrow> fst ?r \<le> v" for v
  proof (cases "v \<in> set a")
    case True
    then show ?thesis using r3 r2 by force
  next
    case False
    then show ?thesis using pos_m by (simp add: count_list_notin)
  qed
  have "mode a = ([fst ?r], [count_list a (fst ?r)])"
    using assms r2 by (simp add: mode_def Let_def)
  with r1 a1 a2 show ?thesis by blast
qed

subsection \<open>Threshold, lookup table and binarization\<close>

lemma count_list_map_inj:
  assumes "inj f"
  shows "count_list (map f xs) (f x) = count_list xs x"
  using assms by (induction xs) (auto dest: injD)

lemma count_list_uint: "count_list (map uint xs) (uint (x :: 8 word)) = count_list xs x"
  by (rule count_list_map_inj) (rule injI, rule word_uint_eqI)

lemma uint_byte_bounds: "0 \<le> uint (p :: 8 word)" "uint (p :: 8 word) < 256"
  using uint_bounded [of p] by simp_all

lemma floor_090: "\<lfloor>0.90 * real_of_int k\<rfloor> = 9 * k div 10"
proof -
  have "0.90 * real_of_int k = real_of_int (9 * k) / real_of_int 10"
    by simp
  then show ?thesis
    by (simp only: floor_divide_of_int_eq)
qed

lemma mode_pixels:
  assumes "getdata (im :: 8 word image) \<noteq> []"
  shows "\<exists>m. fst (mode (map uint (getdata im))) = [uint m] \<and> m \<in> set (getdata im)
           \<and> (\<forall>v. count_list (getdata im) v \<le> count_list (getdata im) m)
           \<and> (\<forall>v. count_list (getdata im) v = count_list (getdata im) m \<longrightarrow> m \<le> v)"
proof -
  let ?a = "map uint (getdata im)"
  have "?a \<noteq> []" using assms by simp
  from mode_nonempty [OF this] obtain k where k: "mode ?a = ([k], [count_list ?a k])"
    "k \<in> set ?a" "\<forall>v. count_list ?a v \<le> count_list ?a k"
    "\<forall>v. count_list ?a v = count_list ?a k \<longrightarrow> k \<le> v"
    by blast
  from k(2) obtain m where m: "m \<in> set (getdata im)" "k = uint m"
    by auto
  have c1: "count_list (getdata im) v \<le> count_list (getdata im) m" for v
    using k(3) [rule_format, of "uint v"] by (simp only: m(2) count_list_uint)
  have c2: "count_list (getdata im) v = count_list (getdata im) m \<longrightarrow> m \<le> v" for v
    using k(4) [rule_format, of "uint v"] by (simp add: m(2) count_list_uint word_le_def)
  show ?thesis
    using k(1) m c1 c2 by auto
qed

lemma threshold_of_mode:
  assumes "fst (mode (map uint (getdata im))) = [uint (m :: 8 word)]"
  shows "threshold_of im = Inr (9 * uint m div 10)"
  using assms uint_byte_bounds [of m]
  by (simp add: threshold_of_def index0_def int_mul_090_byte)

lemma threshold_of_empty:
  assumes "getdata im = []"
  shows "threshold_of im = Inl IndexError"
  using assms by (simp add: threshold_of_def index0_def mode_def)

lemma length_lut_of: "0 \<le> t \<Longrightarrow> t \<le> 256 \<Longrightarrow> length (lut_of t) = 256"
  by (simp add: lut_of_def)

lemma nth_lut_of:
  assumes "0 \<le> t" and "t \<le> 256" and "i < 256"
  shows "lut_of t ! i = (if int i < t then 0 else 255)"
  using assms by (auto simp: lut_of_def nth_append)

lemma clip8_lut:
  assumes "0 \<le> t" and "t \<le> 256"
  shows "clip8 (lut_of t ! unat (p :: 8 word)) = (if uint p < t then 0 else 255)"
proof -
  have "unat p < 256"
    using uint_byte_bounds(2) [of p] unfolding uint_nat by linarith
  from nth_lut_of [OF assms this] show ?thesis
    unfolding uint_nat by (simp add: clip8_def)
qed

lemma point_lut_of:
  assumes "0 \<le> t" and "t \<le> 256"
  shows "point (lut_of t) im =
           Inr (im\<lparr>rows := map (map (\<lambda>p. if uint p < t then 0 else 255)) (rows im)\<rparr>)"
  using assms by (simp add: point_def length_lut_of clip8_lut)

lemma binarize_mode:
  assumes "fst (mode (map uint (getdata im))) = [uint (m :: 8 word)]"
  shows "binarize im =
           Inr (im\<lparr>rows := map (map (\<lambda>p. if uint p < 9 * uint m div 10 then 0 else 255)) (rows im)\<rparr>)"
proof -
  have "0 \<le> 9 * uint m div 10" "9 * uint m div 10 \<le> 256"
    using uint_byte_bounds [of m] by linarith+
  then show ?thesis
    by (simp add: binarize_def threshold_of_mode [OF assms] point_lut_of)
qed

lemma wf_image_nth:
  assumes "wf_image im" and "y < height im"
  shows "y < length (rows im)" and "length (rows im ! y) = width im"
  using assms by (simp_all add: wf_image_def list_all_length)

lemma wf_image_map_rows:
  "wf_image im \<Longrightarrow> wf_image (im\<lparr>rows := map (map f) (rows im)\<rparr>)"
  by (simp add: wf_image_def list_all_length)

lemma getdata_map_rows:
  "getdata (im\<lparr>rows := map (map f) (rows im)\<rparr>) = map f (getdata im)"
  by (simp add: getdata_def map_concat)

lemma pixel_in_getdata:
  assumes "y < length (rows im)" and "x < length (rows im ! y)"
  shows "rows im ! y ! x \<in> set (getdata im)"
  using assms unfolding getdata_def by (metis nth_mem set_concat UN_I)

subsection \<open>Claims about binarization\<close>

lemma threshold_of_strict_mode:
  assumes "\<forall>v. v \<noteq> c \<longrightarrow> count_list (getdata (im :: 8 word image)) v < count_list (getdata im) c"
  shows "threshold_of im = Inr (9 * uint c div 10)"
proof -
  have "getdata im \<noteq> []"
  proof
    assume "getdata im = []"
    then have "count_list (getdata im) (c + 1) = count_list (getdata im) c" by simp
    moreover have "c + 1 \<noteq> c" by simp
    ultimately show False using assms by (metis less_irrefl)
  qed
  from mode_pixels [OF this] obtain m where
    m: "fst (mode (map uint (getdata im))) = [uint m]"
       "\<forall>v. count_list (getdata im) v \<le> count_list (getdata im) m"
    by blast
  have "m = c"
  proof (rule ccontr)
    assume "m \<noteq> c"
    with assms have "count_list (getdata im) m < count_list (getdata im) c" by blast
    moreover have "count_list (getdata im) c \<le> count_list (getdata im) m"
      using m(2) by blast
    ultimately show False by simp
  qed
  with threshold_of_mode [OF m(1)] show ?thesis by simp
qed

lemma sample_gray_most:
  "\<forall>v. v \<noteq> 200 \<longrightarrow> count_list (getdata sample_gray) v < count_list (getdata sample_gray) 200"
  by (simp add: sample_gray_def getdata_def)

lemma sample_gray_threshold: "threshold_of sample_gray = Inr 180"
  using threshold_of_strict_mode [OF sample_gray_most] by simp

lemma lut_fun_idem:
  assumes "t \<le> 255"
  shows "(if uint ((if uint (p :: 8 word) < t then 0 else 255) :: 8 word) < t then 0 else 255)
           = ((if uint p < t then 0 else 255) :: 8 word)"
proof (cases "uint p < t")
  case True
  moreover have "0 \<le> uint p" by (rule uint_nonnegative)
  ultimately have "0 < t" by linarith
  with True show ?thesis by simp
next
  case False
  with assms show ?thesis by simp
qed

text \<open>
  Claim C3. For a grey-scale image with at least one pixel, the threshold is the
  statistical mode of its pixels (a value of the image that no value occurs more often
  than) times 0.90, rounded down to an integer. In particular, when 200 occurs more
  often than every other value, the threshold is 180.
\<close>

theorem threshold_is_truncated_090_mode:
  assumes "getdata (im :: 8 word image) \<noteq> []"
  shows "(\<exists>m. m \<in> set (getdata im)
            \<and> (\<forall>v. count_list (getdata im) v \<le> count_list (getdata im) m)
            \<and> threshold_of im = Inr \<lfloor>0.90 * real_of_int (uint m)\<rfloor>)
       \<and> ((\<forall>v. v \<noteq> 200 \<longrightarrow> count_list (getdata im) v < count_list (getdata im) 200)
            \<longrightarrow> threshold_of im = Inr 180)"
proof -
  from mode_pixels [OF assms] obtain m where
    m: "fst (mode (map uint (getdata im))) = [uint m]" "m \<in> set (getdata im)"
       "\<forall>v. count_list (getdata im) v \<le> count_list (getdata im) m"
    by blast
  have t: "threshold_of im = Inr (9 * uint m div 10)"
    by (rule threshold_of_mode [OF m(1)])
  have first: "\<exists>m. m \<in> set (getdata im)
            \<and> (\<forall>v. count_list (getdata im) v \<le> count_list (getdata im) m)
            \<and> threshold_of im = Inr \<lfloor>0.90 * real_of_int (uint m)\<rfloor>"
    using m(2,3) t unfolding floor_090 by blast
  have second: "threshold_of im = Inr 180"
    if h: "\<forall>v. v \<noteq> 200 \<longrightarrow> count_list (getdata im) v < count_list (getdata im) 200"
    using threshold_of_strict_mode [OF h] by simp
  show ?thesis using first second by blast
qed

theorem threshold_is_truncated_090_mode_witness:
  "getdata sample_gray \<noteq> []
   \<and> (\<exists>m. m \<in> set (getdata sample_gray)
            \<and> (\<forall>v. count_list (getdata sample_gray) v \<le> count_list (getdata sample_gray) m)
            \<and> threshold_of sample_gray = Inr \<lfloor>0.90 * real_of_int (uint m)\<rfloor>)
   \<and> threshold_of sample_gray = Inr 180"
proof -
  have ne: "getdata sample_gray \<noteq> []"
    by (simp add: sample_gray_def getdata_def)
  from threshold_is_truncated_090_mode [OF ne] sample_gray_most ne show ?thesis
    by blast
qed

text \<open>
  Claim C4. Binarization of a grey-scale image succeeds at every pixel position: with
  \<open>t\<close> the derived threshold, the pixel becomes 0 when its intensity is below \<open>t\<close>
  and 255 otherwise, and the result holds no value other than 0 and 255.
\<close>

theorem binarize_pointwise:
  assumes "wf_image (im :: 8 word image)" and "y < height im" and "x < width im"
  shows "\<exists>t bw. threshold_of im = Inr t \<and> binarize im = Inr bw
           \<and> wf_image bw \<and> width bw = width im \<and> height bw = height im
           \<and> rows bw ! y ! x = (if uint (rows im ! y ! x) < t then 0 else 255)
           \<and> (\<forall>p\<in>set (getdata bw). p = 0 \<or> p = 255)"
proof -
  note yx = wf_image_nth [OF assms(1,2)]
  have "rows im ! y ! x \<in> set (getdata im)"
    using yx assms(3) by (simp add: pixel_in_getdata)
  then have "getdata im \<noteq> []" by auto
  from mode_pixels [OF this] obtain m where
    m: "fst (mode (map uint (getdata im))) = [uint (m :: 8 word)]"
    by blast
  let ?t = "9 * uint m div 10"
  let ?f = "\<lambda>p :: 8 word. if uint p < ?t then 0 else 255 :: 8 word"
  let ?bw = "im\<lparr>rows := map (map ?f) (rows im)\<rparr>"
  have 1: "threshold_of im = Inr ?t" by (rule threshold_of_mode [OF m])
  have 2: "binarize im = Inr ?bw" by (rule binarize_mode [OF m])
  have 3: "wf_image ?bw" using assms(1) by (rule wf_image_map_rows)
  have 4: "rows ?bw ! y ! x = ?f (rows im ! y ! x)"
    using yx assms(3) by simp
  have 5: "\<forall>p\<in>set (getdata ?bw). p = 0 \<or> p = 255"
    unfolding getdata_map_rows by auto
  have 6: "width ?bw = width im" "height ?bw = height im" by simp_all
  show ?thesis
    using 1 2 3 4 5 6 by blast
qed

theorem binarize_pointwise_witness:
  "wf_image sample_gray \<and> 1 < height sample_gray \<and> 1 < width sample_gray
   \<and> threshold_of sample_gray = Inr 180
   \<and> binarize sample_gray = Inr \<lparr>width = 3, height = 2, rows = [[255, 255, 0], [255, 0, 255]]\<rparr>
   \<and> (\<exists>t bw. threshold_of sample_gray = Inr t \<and> binarize sample_gray = Inr bw
           \<and> wf_image bw \<and> width bw = width sample_gray \<and> height bw = height sample_gray
           \<and> rows bw ! 1 ! 1 = (if uint (rows sample_gray ! 1 ! 1) < t then 0 else 255)
           \<and> (\<forall>p\<in>set (getdata bw). p = 0 \<or> p = 255))"
proof -
  have wf: "wf_image sample_gray" and y: "1 < height sample_gray" and x: "1 < width sample_gray"
    by (simp_all add: sample_gray_def wf_image_def)
  note t = sample_gray_threshold
  have b: "binarize sample_gray = Inr \<lparr>width = 3, height = 2, rows = [[255, 255, 0], [255, 0, 255]]\<rparr>"
    unfolding binarize_def t by (simp add: point_lut_of) (simp add: sample_gray_def)
  from binarize_pointwise [OF wf y x] wf y x t b show ?thesis
    by blast
qed

text \<open>
  Claim C5. For a fixed threshold \<open>t\<close> between 0 and 255 and an image whose pixels are
  all 0 or 255, the threshold step (the lookup table of \<open>t\<close> applied to every pixel)
  succeeds, and applying it to its own result gives that result again.
\<close>

theorem threshold_step_idempotent:
  assumes "0 \<le> t" and "t \<le> 255"
    and "\<forall>p\<in>set (getdata im). p = 0 \<or> p = 255"
  shows "\<exists>b. point (lut_of t) im = Inr b \<and> point (lut_of t) b = Inr b"
proof -
  let ?f = "\<lambda>p :: 8 word. if uint p < t then 0 else 255 :: 8 word"
  let ?b = "im\<lparr>rows := map (map ?f) (rows im)\<rparr>"
  have t256: "t \<le> 256" using assms(2) by simp
  have once: "point (lut_of t) im = Inr ?b"
    by (rule point_lut_of [OF assms(1) t256])
  have "point (lut_of t) ?b = Inr (?b\<lparr>rows := map (map ?f) (rows ?b)\<rparr>)"
    by (rule point_lut_of [OF assms(1) t256])
  also have "?b\<lparr>rows := map (map ?f) (rows ?b)\<rparr> = ?b"
    using lut_fun_idem [OF assms(2)] by (simp add: comp_def)
  finally show ?thesis using once by blast
qed

theorem threshold_step_idempotent_witness:
  "(0::int) \<le> 128 \<and> (128::int) \<le> 255
   \<and> point (lut_of 128) sample_binary = Inr sample_binary
   \<and> (\<exists>b. point (lut_of 128) sample_binary = Inr b \<and> point (lut_of 128) b = Inr b)"
proof -
  have t0: "(0::int) \<le> 128" and t1: "(128::int) \<le> 255" and t2: "(128::int) \<le> 256"
    by simp_all
  have bin: "\<forall>p\<in>set (getdata sample_binary). p = 0 \<or> p = 255"
    by (simp add: sample_binary_def getdata_def)
  have same: "point (lut_of 128) sample_binary = Inr sample_binary"
    unfolding point_lut_of [OF t0 t2] by (simp add: sample_binary_def)
  from threshold_step_idempotent [OF t0 t1 bin] same show ?thesis
    by simp
qed

text \<open>
  Claim C10. For a grey-scale image with at least one pixel, the threshold \<open>t\<close> derived
  from the mode \<open>m\<close> satisfies \<open>0 \<le> t \<le> m\<close> and \<open>t \<le> 229\<close>; binarization succeeds and
  maps every pixel whose intensity is the mode to 255; a uniform image becomes all 255.
\<close>

theorem mode_never_ink:
  assumes "getdata (im :: 8 word image) \<noteq> []"
  shows "\<exists>m t bw. fst (mode (map uint (getdata im))) = [m]
           \<and> threshold_of im = Inr t \<and> 0 \<le> t \<and> t \<le> m \<and> t \<le> 229
           \<and> binarize im = Inr bw
           \<and> length (getdata bw) = length (getdata im)
           \<and> (\<forall>i<length (getdata im). uint (getdata im ! i) = m \<longrightarrow> getdata bw ! i = 255)
           \<and> ((\<exists>c. \<forall>p\<in>set (getdata im). p = c) \<longrightarrow> (\<forall>q\<in>set (getdata bw). q = 255))"
proof -
  from mode_pixels [OF assms] obtain m where
    m: "fst (mode (map uint (getdata im))) = [uint m]" "m \<in> set (getdata im)"
    by blast
  let ?t = "9 * uint m div 10"
  let ?f = "\<lambda>p :: 8 word. if uint p < ?t then 0 else 255 :: 8 word"
  let ?bw = "im\<lparr>rows := map (map ?f) (rows im)\<rparr>"
  note b = uint_byte_bounds [of m]
  have t0: "0 \<le> ?t" and t1: "?t \<le> uint m" and t2: "?t \<le> 229"
    using b by linarith+
  have 1: "threshold_of im = Inr ?t" by (rule threshold_of_mode [OF m(1)])
  have 2: "binarize im = Inr ?bw" by (rule binarize_mode [OF m(1)])
  have gd: "getdata ?bw = map ?f (getdata im)" by (rule getdata_map_rows)
  have 3: "length (getdata ?bw) = length (getdata im)" unfolding gd by simp
  have 4: "\<forall>i<length (getdata im). uint (getdata im ! i) = uint m \<longrightarrow> getdata ?bw ! i = 255"
    unfolding gd using t1 by simp
  have 5: "\<forall>q\<in>set (getdata ?bw). q = 255" if u: "\<exists>c. \<forall>p\<in>set (getdata im). p = c"
  proof -
    from u obtain c where c: "\<forall>p\<in>set (getdata im). p = c" by blast
    with m(2) have "m = c" by blast
    with c have "\<forall>p\<in>set (getdata im). p = m" by simp
    then have "\<forall>p\<in>set (getdata im). \<not> uint p < ?t"
      using t1 by (metis not_less)
    then show ?thesis unfolding gd by simp
  qed
  show ?thesis
    using m(1) 1 t0 t1 t2 2 3 4 5 by blast
qed

theorem mode_never_ink_witness:
  "getdata sample_uniform \<noteq> []
   \<and> (\<exists>c. \<forall>p\<in>set (getdata sample_uniform). p = c)
   \<and> (\<exists>bw. binarize sample_uniform = Inr bw \<and> (\<forall>q\<in>set (getdata bw). q = 255))"
proof -
  have ne: "getdata sample_uniform \<noteq> []"
    by (simp add: sample_uniform_def getdata_def)
  have u: "\<exists>c. \<forall>p\<in>set (getdata sample_uniform). p = c"
    by (simp add: sample_uniform_def getdata_def)
  from mode_never_ink [OF ne] u ne show ?thesis
    by blast
qed

subsection \<open>Padding\<close>

lemma length_paste_row:
  "dx0 + xsize \<le> length out \<Longrightarrow> xsize \<le> length inp \<Longrightarrow>
     length (paste_row out inp dx0 xsize) = length out"
  by (simp add: paste_row_def)

lemma nth_paste_row:
  assumes "dx0 + xsize \<le> length out" and "xsize \<le> length inp" and "x < length out"
  shows "paste_row out inp dx0 xsize ! x =
           (if dx0 \<le> x \<and> x < dx0 + xsize then inp ! (x - dx0) else out ! x)"
  using assms by (auto simp: paste_row_def nth_append)

lemma length_fold_paste:
  "length (fold (\<lambda>y rs. rs[y + dy0 := g y (rs ! (y + dy0))]) ys rs) = length rs"
  by (induction ys arbitrary: rs) simp_all

lemma nth_fold_paste:
  assumes "dy0 + k \<le> length rs" and "j < length rs"
  shows "fold (\<lambda>y rs. rs[y + dy0 := g y (rs ! (y + dy0))]) [0..<k] rs ! j =
           (if dy0 \<le> j \<and> j < dy0 + k then g (j - dy0) (rs ! j) else rs ! j)"
  using assms
proof (induction k arbitrary: j)
  case 0
  then show ?case by auto
next
  case (Suc k)
  let ?r = "fold (\<lambda>y rs. rs[y + dy0 := g y (rs ! (y + dy0))]) [0..<k] rs"
  have len: "length ?r = length rs" by (rule length_fold_paste)
  have ih: "?r ! i = (if dy0 \<le> i \<and> i < dy0 + k then g (i - dy0) (rs ! i) else rs ! i)"
    if "i < length rs" for i
    using Suc.IH [of i] Suc.prems(1) that by simp
  have kk: "k + dy0 < length rs" using Suc.prems(1) by simp
  show ?case
    using Suc.prems(2) kk ih [of j] ih [of "k + dy0"]
    by (auto simp: len nth_list_update)
qed

lemma rows_paste_fits:
  assumes "dx0 + width imIn \<le> width imOut" and "dy0 + height imIn \<le> height imOut"
    and "0 < width imIn" and "0 < height imIn"
  shows "rows (paste imOut imIn (dx0, dy0)) =
           fold (\<lambda>y rs. rs[y + dy0 := paste_row (rs ! (y + dy0)) (rows imIn ! y) dx0 (width imIn)])
             [0..<height imIn] (rows imOut)"
proof -
  have x: "min (width imIn) (width imOut - dx0) = width imIn"
    using assms(1) by (simp add: min_def)
  have y: "min (height imIn) (height imOut - dy0) = height imIn"
    using assms(2) by (simp add: min_def)
  show ?thesis
    using assms(3,4) unfolding paste_def Let_def fst_conv snd_conv x y by simp
qed

lemma rows_paste_empty:
  assumes "width imIn = 0 \<or> height imIn = 0"
  shows "paste imOut imIn position = imOut"
  using assms unfolding paste_def Let_def by auto

lemma size_paste:
  "width (paste imOut imIn position) = width imOut"
  "height (paste imOut imIn position) = height imOut"
  unfolding paste_def Let_def by simp_all

lemma nth_paste:
  assumes out: "wf_image imOut" and inp: "wf_image imIn"
    and fx: "dx0 + width imIn \<le> width imOut" and fy: "dy0 + height imIn \<le> height imOut"
    and y: "y < height imOut" and x: "x < width imOut"
  shows "rows (paste imOut imIn (dx0, dy0)) ! y ! x =
           (if dx0 \<le> x \<and> x < dx0 + width imIn \<and> dy0 \<le> y \<and> y < dy0 + height imIn
            then rows imIn ! (y - dy0) ! (x - dx0) else rows imOut ! y ! x)"
proof (cases "width imIn = 0 \<or> height imIn = 0")
  case True
  then show ?thesis
    using rows_paste_empty [OF True] by auto
next
  case False
  then have pos: "0 < width imIn" "0 < height imIn" by simp_all
  note oy = wf_image_nth [OF out y]
  have lenrows: "dy0 + height imIn \<le> length (rows imOut)"
    using fy out by (simp add: wf_image_def)
  have row: "rows (paste imOut imIn (dx0, dy0)) ! y =
      (if dy0 \<le> y \<and> y < dy0 + height imIn
       then paste_row (rows imOut ! y) (rows imIn ! (y - dy0)) dx0 (width imIn)
       else rows imOut ! y)"
    unfolding rows_paste_fits [OF fx fy pos]
    using nth_fold_paste [OF lenrows oy(1),
        of "\<lambda>y r. paste_row r (rows imIn ! y) dx0 (width imIn)"]
    by simp
  show ?thesis
  proof (cases "dy0 \<le> y \<and> y < dy0 + height imIn")
    case True
    then have "y - dy0 < height imIn" by linarith
    note iy = wf_image_nth [OF inp this]
    have "paste_row (rows imOut ! y) (rows imIn ! (y - dy0)) dx0 (width imIn) ! x =
            (if dx0 \<le> x \<and> x < dx0 + width imIn
             then rows imIn ! (y - dy0) ! (x - dx0) else rows imOut ! y ! x)"
      by (rule nth_paste_row) (simp_all add: oy iy fx x)
    with True row show ?thesis by simp
  next
    case False
    with row show ?thesis by auto
  qed
qed

lemma wf_paste:
  assumes out: "wf_image imOut" and inp: "wf_image imIn"
    and fx: "dx0 + width imIn \<le> width imOut" and fy: "dy0 + height imIn \<le> height imOut"
  shows "wf_image (paste imOut imIn (dx0, dy0))"
proof (cases "width imIn = 0 \<or> height imIn = 0")
  case True
  then show ?thesis
    using rows_paste_empty [OF True] out by simp
next
  case False
  then have pos: "0 < width imIn" "0 < height imIn" by simp_all
  let ?g = "\<lambda>y r. paste_row r (rows imIn ! y) dx0 (width imIn)"
  let ?rs = "fold (\<lambda>y rs. rs[y + dy0 := ?g y (rs ! (y + dy0))]) [0..<height imIn] (rows imOut)"
  have lenrows: "dy0 + height imIn \<le> length (rows imOut)"
    using fy out by (simp add: wf_image_def)
  have "length ?rs = length (rows imOut)"
    by (rule length_fold_paste [where g = ?g])
  then have len: "length ?rs = height imOut"
    using out by (simp add: wf_image_def)
  have each: "length (?rs ! j) = width imOut" if j: "j < height imOut" for j
  proof -
    note oj = wf_image_nth [OF out j]
    have r: "?rs ! j = (if dy0 \<le> j \<and> j < dy0 + height imIn
                        then ?g (j - dy0) (rows imOut ! j) else rows imOut ! j)"
      by (rule nth_fold_paste [OF lenrows oj(1)])
    show ?thesis
    proof (cases "dy0 \<le> j \<and> j < dy0 + height imIn")
      case True
      then have "j - dy0 < height imIn" by linarith
      note ij = wf_image_nth [OF inp this]
      have "length (?g (j - dy0) (rows imOut ! j)) = length (rows imOut ! j)"
        by (rule length_paste_row) (simp_all add: oj ij fx)
      with True r oj show ?thesis by simp
    next
      case False
      with r oj show ?thesis by auto
    qed
  qed
  show ?thesis
    unfolding wf_image_def size_paste rows_paste_fits [OF fx fy pos]
    using len each by (simp add: list_all_length)
qed

lemma pad_geometry:
  fixes w h :: nat
  shows "(max w h - w) div 2 + w \<le> max w h" and "(max w h - h) div 2 + h \<le> max w h"
  by (auto simp: max_def)

lemma wf_Image_new: "wf_image (Image_new sz c)"
  by (simp add: wf_image_def Image_new_def list_all_length)

lemma nth_Image_new:
  "y < snd sz \<Longrightarrow> x < fst sz \<Longrightarrow> rows (Image_new sz c) ! y ! x = c"
  by (simp add: Image_new_def)

lemma pad_as_paste:
  "pad_image_square_center c im =
     paste (Image_new (max (width im) (height im), max (width im) (height im)) c) im
       ((max (width im) (height im) - width im) div 2,
        (max (width im) (height im) - height im) div 2)"
  unfolding pad_image_square_center_def Let_def ..

lemma pad_size:
  "width (pad_image_square_center c im) = max (width im) (height im)"
  "height (pad_image_square_center c im) = max (width im) (height im)"
  unfolding pad_as_paste size_paste by (simp_all add: Image_new_def)

lemma wf_pad:
  assumes "wf_image im"
  shows "wf_image (pad_image_square_center c im)"
  unfolding pad_as_paste
  by (rule wf_paste [OF wf_Image_new assms]) (simp_all add: Image_new_def pad_geometry)

lemma nth_pad:
  assumes "wf_image im"
    and "y < max (width im) (height im)" and "x < max (width im) (height im)"
  shows "rows (pad_image_square_center c im) ! y ! x =
           (if (max (width im) (height im) - width im) div 2 \<le> x
               \<and> x < (max (width im) (height im) - width im) div 2 + width im
               \<and> (max (width im) (height im) - height im) div 2 \<le> y
               \<and> y < (max (width im) (height im) - height im) div 2 + height im
            then rows im ! (y - (max (width im) (height im) - height im) div 2)
                         ! (x - (max (width im) (height im) - width im) div 2)
            else c)"
proof -
  let ?n = "max (width im) (height im)"
  let ?new = "Image_new (?n, ?n) c"
  have fx: "(?n - width im) div 2 + width im \<le> width ?new"
    and fy: "(?n - height im) div 2 + height im \<le> height ?new"
    by (simp_all add: Image_new_def pad_geometry)
  have y: "y < height ?new" and x: "x < width ?new"
    using assms(2,3) by (simp_all add: Image_new_def)
  have c: "rows ?new ! y ! x = c"
    using assms(2,3) by (simp add: nth_Image_new)
  show ?thesis
    unfolding pad_as_paste nth_paste [OF wf_Image_new assms(1) fx fy y x] c ..
qed

text \<open>
  Claim C2. For a well-formed image of width \<open>w\<close> and height \<open>h\<close>, the padded image is a
  well-formed square of side \<open>max w h\<close>; with offsets \<open>((max w h - w) div 2,
  (max w h - h) div 2)\<close>, the pixel at \<open>(x, y)\<close> is the original pixel at
  \<open>(x, y)\<close> minus the offsets inside the pasted region and white (255) outside it. A
  10 by 4 image gives a 10 by 10 canvas with vertical offset 3.
\<close>

theorem pad_square_center:
  assumes "wf_image (im :: 8 word image)"
  shows "width (pad_image_square_center white_L im) = max (width im) (height im)
       \<and> height (pad_image_square_center white_L im) = max (width im) (height im)
       \<and> wf_image (pad_image_square_center white_L im)
       \<and> white_L = 255
       \<and> (\<forall>y<max (width im) (height im). \<forall>x<max (width im) (height im).
            rows (pad_image_square_center white_L im) ! y ! x =
              (if (max (width im) (height im) - width im) div 2 \<le> x
                  \<and> x < (max (width im) (height im) - width im) div 2 + width im
                  \<and> (max (width im) (height im) - height im) div 2 \<le> y
                  \<and> y < (max (width im) (height im) - height im) div 2 + height im
               then rows im ! (y - (max (width im) (height im) - height im) div 2)
                            ! (x - (max (width im) (height im) - width im) div 2)
               else 255))
       \<and> (width im = 10 \<and> height im = 4 \<longrightarrow>
            width (pad_image_square_center white_L im) = 10
            \<and> height (pad_image_square_center white_L im) = 10
            \<and> (max (width im) (height im) - height im) div 2 = 3)"
proof -
  have w: "white_L = 255" by (simp add: white_L_def)
  have px: "\<forall>y<max (width im) (height im). \<forall>x<max (width im) (height im).
            rows (pad_image_square_center white_L im) ! y ! x =
              (if (max (width im) (height im) - width im) div 2 \<le> x
                  \<and> x < (max (width im) (height im) - width im) div 2 + width im
                  \<and> (max (width im) (height im) - height im) div 2 \<le> y
                  \<and> y < (max (width im) (height im) - height im) div 2 + height im
               then rows im ! (y - (max (width im) (height im) - height im) div 2)
                            ! (x - (max (width im) (height im) - width im) div 2)
               else 255)"
    using nth_pad [OF assms, of _ _ white_L] unfolding w by blast
  have ex: "width im = 10 \<and> height im = 4 \<longrightarrow>
            width (pad_image_square_center white_L im) = 10
            \<and> height (pad_image_square_center white_L im) = 10
            \<and> (max (width im) (height im) - height im) div 2 = 3"
    by (simp add: pad_size)
  show ?thesis
    using pad_size [of white_L im] wf_pad [OF assms, of white_L] w px ex by blast
qed

theorem pad_square_center_witness:
  "wf_image sample_wide
   \<and> width (pad_image_square_center white_L sample_wide) = 10
   \<and> height (pad_image_square_center white_L sample_wide) = 10
   \<and> (max (width sample_wide) (height sample_wide) - height sample_wide) div 2 = 3
   \<and> rows (pad_image_square_center white_L sample_wide) ! 3 ! 0 = 10
   \<and> rows (pad_image_square_center white_L sample_wide) ! 6 ! 9 = 49
   \<and> rows (pad_image_square_center white_L sample_wide) ! 2 ! 0 = 255
   \<and> rows (pad_image_square_center white_L sample_wide) ! 7 ! 9 = 255"
proof -
  have wf: "wf_image sample_wide"
    by (simp add: sample_wide_def wf_image_def)
  have sz: "width sample_wide = 10" "height sample_wide = 4"
    by (simp_all add: sample_wide_def)
  have rw: "rows sample_wide =
     [[10, 11, 12, 13, 14, 15, 16, 17, 18, 19],
      [20, 21, 22, 23, 24, 25, 26, 27, 28, 29],
      [30, 31, 32, 33, 34, 35, 36, 37, 38, 39],
      [40, 41, 42, 43, 44, 45, 46, 47, 48, 49]]"
    by (simp add: sample_wide_def)
  note t = pad_square_center [OF wf]
  note w = t [THEN conjunct1]
  note h = t [THEN conjunct2, THEN conjunct1]
  note px = t [THEN conjunct2, THEN conjunct2, THEN conjunct2, THEN conjunct2,
                THEN conjunct1, rule_format]
  have a: "rows (pad_image_square_center white_L sample_wide) ! 3 ! 0 = 10"
    using px [of 3 0] by (simp add: sz rw)
  have b: "rows (pad_image_square_center white_L sample_wide) ! 6 ! 9 = 49"
    using px [of 6 9] by (simp add: sz rw)
  have c: "rows (pad_image_square_center white_L sample_wide) ! 2 ! 0 = 255"
    using px [of 2 0] by (simp add: sz)
  have d: "rows (pad_image_square_center white_L sample_wide) ! 7 ! 9 = 255"
    using px [of 7 9] by (simp add: sz)
  show ?thesis
    using wf w h a b c d by (simp add: sz)
qed

subsection \<open>The pipeline\<close>

lemma getdata_convert_L: "getdata (convert_L to_L im) = map to_L (getdata im)"
  by (simp add: getdata_def convert_L_def map_concat)

lemma binarize_nonempty:
  assumes "getdata (im :: 8 word image) \<noteq> []"
  shows "\<exists>bw. binarize im = Inr bw"
proof -
  from mode_pixels [OF assms] obtain m where
    "fst (mode (map uint (getdata im))) = [uint (m :: 8 word)]"
    by blast
  from binarize_mode [OF this] show ?thesis by blast
qed

lemma binarize_empty:
  assumes "getdata im = []"
  shows "binarize im = Inl IndexError"
  using threshold_of_empty [OF assms] by (simp add: binarize_def)

lemma take_drop_concat:
  assumes "\<forall>r\<in>set rs. length r = n" and "i < length rs"
  shows "take n (drop (i * n) (concat rs)) = rs ! i"
  using assms
proof (induction rs arbitrary: i)
  case Nil
  then show ?case by simp
next
  case (Cons r rs)
  show ?case
  proof (cases i)
    case 0
    with Cons.prems show ?thesis by simp
  next
    case (Suc j)
    with Cons.prems Cons.IH [of j] show ?thesis by simp
  qed
qed

lemma length_concat_uniform:
  "\<forall>r\<in>set rs. length r = n \<Longrightarrow> length (concat rs) = length rs * n"
  by (induction rs) simp_all

lemma reshape_concat:
  assumes "\<forall>r\<in>set rs. length r = n" and "length rs = m"
  shows "reshape (concat rs) (m, n) = Inr rs"
proof -
  have len: "length (concat rs) = m * n"
    using length_concat_uniform [OF assms(1)] assms(2) by simp
  have "map (\<lambda>i. take n (drop (i * n) (concat rs))) [0..<m] = rs"
    using assms by (intro nth_equalityI) (simp_all add: take_drop_concat)
  with len show ?thesis by (simp add: reshape_def)
qed

lemma resize_ok:
  assumes "0 < res"
  shows "resize resample im (res, res) =
           Inr \<lparr>width = res, height = res, rows = resized_rows resample im res\<rparr>"
  using assms by (simp add: resize_def resized_rows_def)

lemma reshape_resized:
  "reshape (map uint (getdata \<lparr>width = res, height = res, rows = resized_rows resample im res\<rparr>))
     (res, res) = Inr (map (map uint) (resized_rows resample im res))"
proof -
  have "map uint (getdata \<lparr>width = res, height = res, rows = resized_rows resample im res\<rparr>)
          = concat (map (map uint) (resized_rows resample im res))"
    by (simp add: getdata_def map_concat)
  moreover have "reshape (concat (map (map uint) (resized_rows resample im res))) (res, res)
          = Inr (map (map uint) (resized_rows resample im res))"
    by (rule reshape_concat) (auto simp: resized_rows_def)
  ultimately show ?thesis by simp
qed

lemma preprocess_image_result:
  assumes "binarize (convert_L to_L im) = Inr bw" and "0 < final_res"
  shows "fst (preprocess_image to_L resample im final_res padding plot figs) =
           Inr (map (map (\<lambda>v. real_of_int v / 255))
                 (map (map uint)
                   (resized_rows resample
                     (if padding then pad_image_square_center white_L bw else bw) final_res)))"
  unfolding preprocess_image_def Let_def assms(1) sum.case resize_ok [OF assms(2)]
    reshape_resized
  by simp

lemma preprocess_image_error:
  assumes "binarize (convert_L to_L im) = Inl e"
  shows "preprocess_image to_L resample im final_res padding plot figs = (Inl e, figs)"
  unfolding preprocess_image_def Let_def assms sum.case ..

lemma preprocess_image_noplot:
  "snd (preprocess_image to_L resample im final_res padding False figs) = figs"
  unfolding preprocess_image_def Let_def
  by (simp split: sum.splits)

lemma preprocess_image_figs_indep:
  "fst (preprocess_image to_L resample im final_res padding plot figs) =
   fst (preprocess_image to_L resample im final_res padding plot figs')"
  unfolding preprocess_image_def Let_def
  by (simp split: sum.splits)

lemma unit_interval_byte:
  "0 \<le> real_of_int (uint (p :: 8 word)) / 255 \<and> real_of_int (uint (p :: 8 word)) / 255 \<le> 1"
proof -
  have a: "0 \<le> uint p" and b: "uint p \<le> 255"
    using uint_byte_bounds [of p] by linarith+
  have ra: "(0::real) \<le> real_of_int (uint p)"
    using a by (simp only: of_int_0_le_iff)
  have "real_of_int (uint p) \<le> real_of_int 255"
    using b by (simp only: of_int_le_iff)
  then have rb: "real_of_int (uint p) \<le> 255"
    by (simp only: of_int_numeral)
  from ra rb show ?thesis by linarith
qed

lemma sample_gray_run:
  "preprocess_image l2l nearest sample_gray 2 True False [] = (Inr [[1, 0], [1, 1]], [])"
  by code_simp

text \<open>
  Claim C1, amended. For every input image with at least one pixel and every positive
  \<open>final_res\<close>, whatever the padding and plot flags, the pipeline returns a grid of
  exactly \<open>final_res\<close> rows of \<open>final_res\<close> values, each between 0 and 1.
\<close>

theorem preprocess_image_shape_range:
  assumes "getdata im \<noteq> []" and "0 < final_res"
  shows "\<exists>a figs'. preprocess_image to_L resample im final_res padding plot figs = (Inr a, figs')
           \<and> length a = final_res
           \<and> (\<forall>r\<in>set a. length r = final_res \<and> (\<forall>v\<in>set r. 0 \<le> v \<and> v \<le> 1))"
proof -
  have "getdata (convert_L to_L im) \<noteq> []"
    using assms(1) by (simp add: getdata_convert_L)
  from binarize_nonempty [OF this] obtain bw where
    bw: "binarize (convert_L to_L im) = Inr bw" by blast
  let ?src = "if padding then pad_image_square_center white_L bw else bw"
  let ?a = "map (map (\<lambda>v. real_of_int v / 255))
              (map (map uint) (resized_rows resample ?src final_res))"
  have res: "fst (preprocess_image to_L resample im final_res padding plot figs) = Inr ?a"
    by (rule preprocess_image_result [OF bw assms(2)])
  have 1: "length ?a = final_res"
    by (simp add: resized_rows_def)
  have 2: "\<forall>r\<in>set ?a. length r = final_res \<and> (\<forall>v\<in>set r. 0 \<le> v \<and> v \<le> 1)"
  proof
    fix r assume "r \<in> set ?a"
    then obtain y where r: "r = map (\<lambda>x. real_of_int (uint (resample ?src (final_res, final_res) x y)) / 255)
                                 [0..<final_res]"
      by (auto simp: resized_rows_def comp_def)
    have "\<forall>v\<in>set r. 0 \<le> v \<and> v \<le> 1"
      unfolding r using unit_interval_byte by auto
    moreover have "length r = final_res" unfolding r by simp
    ultimately show "length r = final_res \<and> (\<forall>v\<in>set r. 0 \<le> v \<and> v \<le> 1)"
      by simp
  qed
  have "preprocess_image to_L resample im final_res padding plot figs =
          (Inr ?a, snd (preprocess_image to_L resample im final_res padding plot figs))"
    using res by (metis prod.collapse)
  with 1 2 show ?thesis by blast
qed

theorem preprocess_image_shape_range_witness:
  "getdata sample_gray \<noteq> [] \<and> (0::nat) < 2
   \<and> preprocess_image l2l nearest sample_gray 2 True False [] = (Inr [[1, 0], [1, 1]], [])
   \<and> (\<exists>a figs'. preprocess_image l2l nearest sample_gray 2 True False [] = (Inr a, figs')
           \<and> length a = 2
           \<and> (\<forall>r\<in>set a. length r = 2 \<and> (\<forall>v\<in>set r. 0 \<le> v \<and> v \<le> 1)))"
proof -
  have ne: "getdata sample_gray \<noteq> []"
    by (simp add: sample_gray_def getdata_def)
  have pos: "(0::nat) < 2" by simp
  from preprocess_image_shape_range [OF ne pos, of l2l nearest True False "[]"]
    ne pos sample_gray_run
  show ?thesis by blast
qed

theorem preprocess_image_empty_counterexample:
  "preprocess_image l2l nearest empty_image 2 False False [] = (Inl IndexError, [])"
proof -
  have "getdata (convert_L l2l empty_image) = []"
    by (simp add: getdata_convert_L) (simp add: getdata_def empty_image_def)
  from preprocess_image_error [OF binarize_empty [OF this]] show ?thesis .
qed

subsection \<open>The batch loop\<close>

lemma print_fields [simp]:
  "files (print s w) = files w" "dirs (print s w) = dirs w"
  "figures (print s w) = figures w" "stdout (print s w) = stdout w @ [s]"
  by (simp_all add: print_def)

lemma figures_print_same: "(print s w)\<lparr>figures := figures w\<rparr> = print s w"
  by (simp add: print_def)

lemma is_dir_stdout [simp]: "is_dir (w\<lparr>stdout := s\<rparr>) p = is_dir w p"
  by (simp add: is_dir_def)

lemma file_in_the_way_stdout [simp]:
  "file_in_the_way (w\<lparr>stdout := s\<rparr>) p = file_in_the_way w p"
  by (simp add: file_in_the_way_def)

lemma file_in_the_way_dirs [simp]:
  "file_in_the_way (w\<lparr>dirs := d\<rparr>) p = file_in_the_way w p"
  by (simp add: file_in_the_way_def)

lemma Image_open_stdout [simp]: "Image_open (w\<lparr>stdout := s\<rparr>) f = Image_open w f"
  by (simp add: Image_open_def)

lemma sample_of_stdout [simp]:
  "sample_of to_L resample final_res padding (w\<lparr>stdout := s\<rparr>) f =
   sample_of to_L resample final_res padding w f"
  by (simp add: sample_of_def split: sum.splits)

lemma sample_of_print [simp]:
  "sample_of to_L resample final_res padding (print s w) f =
   sample_of to_L resample final_res padding w f"
  by (simp add: print_def)

lemma batch_loop_step:
  "batch_loop to_L resample final_res padding num_files row (f # rest) dataset w =
     (case sample_of to_L resample final_res padding w f of
        Inl e \<Rightarrow> (Inl e, print (progress row num_files) w)
      | Inr a \<Rightarrow>
         (case set_row dataset row a of
            Inl e \<Rightarrow> (Inl e, print (progress row num_files) w)
          | Inr dataset' \<Rightarrow>
             batch_loop to_L resample final_res padding num_files (row + 1) rest dataset'
               (print (progress row num_files) w)))"
proof (cases "Image_open w f")
  case (Inl e)
  then have "Image_open (print (progress row num_files) w) f = Inl e"
    by (simp add: print_def)
  with Inl show ?thesis
    by (simp add: batch_loop.simps sample_of_def Let_def)
next
  case (Inr im)
  then have op: "Image_open (print (progress row num_files) w) f = Inr im"
    by (simp add: print_def)
  obtain r where r: "preprocess_image to_L resample im final_res padding False (figures w) =
                       (r, figures w)"
    using preprocess_image_noplot [of to_L resample im final_res padding "figures w"]
    by (metis prod.collapse)
  show ?thesis
    by (simp add: batch_loop.simps Let_def sample_of_def Inr op r figures_print_same
          split: sum.splits)
qed

lemma preprocess_image_zero_res:
  "fst (preprocess_image to_L resample im 0 padding plot figs) \<noteq> Inr a"
  unfolding preprocess_image_def Let_def
  by (simp add: resize_def split: sum.splits)

lemma preprocess_image_Inr_shape:
  assumes "fst (preprocess_image to_L resample im final_res padding plot figs) = Inr a"
  shows "length a = final_res \<and> (\<forall>r\<in>set a. length r = final_res)"
proof (cases "binarize (convert_L to_L im)")
  case (Inl e)
  from preprocess_image_error [OF this] assms show ?thesis by simp
next
  case (Inr bw)
  have pos: "0 < final_res"
    using assms preprocess_image_zero_res [of to_L resample im padding plot figs a]
    by (cases final_res) auto
  from preprocess_image_result [OF Inr pos, of resample padding plot figs] assms
  have "a = map (map (\<lambda>v. real_of_int v / 255))
             (map (map uint)
               (resized_rows resample
                 (if padding then pad_image_square_center white_L bw else bw) final_res))"
    by simp
  then show ?thesis
    by (auto simp: resized_rows_def)
qed

lemma sample_of_shape:
  assumes "sample_of to_L resample final_res padding w f = Inr a"
  shows "length (concat a) = final_res * final_res"
proof -
  from assms obtain im where
    "fst (preprocess_image to_L resample im final_res padding False (figures w)) = Inr a"
    by (auto simp: sample_of_def split: sum.splits)
  from preprocess_image_Inr_shape [OF this]
  have "length a = final_res" and "\<forall>r\<in>set a. length r = final_res"
    by blast+
  then show ?thesis
    using length_concat_uniform [of a final_res] by simp
qed

lemma set_row_ok:
  assumes "row < length dataset" and "length (dataset ! row) = length (concat a)"
  shows "set_row dataset row a = Inr (dataset[row := concat a])"
  using assms by (simp add: set_row_def)

declare batch_loop.simps [simp del]


lemma batch_loop_fail:
  assumes "\<forall>f\<in>set pre. \<exists>a. sample_of to_L resample final_res padding w f = Inr a"
    and "sample_of to_L resample final_res padding w bad = Inl e"
    and "row + length pre \<le> length dataset"
    and "\<forall>r\<in>set dataset. length r = final_res * final_res"
  shows "batch_loop to_L resample final_res padding n row (pre @ bad # post) dataset w =
           (Inl e, w\<lparr>stdout := stdout w @ map (\<lambda>i. progress i n) [row..<Suc (row + length pre)]\<rparr>)"
  using assms
proof (induction pre arbitrary: row dataset w)
  case Nil
  have "batch_loop to_L resample final_res padding n row ([] @ bad # post) dataset w =
          (Inl e, print (progress row n) w)"
    unfolding append_Nil batch_loop_step Nil.prems(2) sum.case ..
  then show ?case
    by (simp add: print_def)
next
  case (Cons f pre)
  let ?S = "sample_of to_L resample final_res padding"
  from Cons.prems(1) obtain a where a: "?S w f = Inr a" by auto
  have row: "row < length dataset" using Cons.prems(3) by simp
  have len_a: "length (concat a) = final_res * final_res"
    by (rule sample_of_shape [OF a])
  have "length (dataset ! row) = length (concat a)"
    using Cons.prems(4) row len_a by simp
  note sr = set_row_ok [OF row this]
  let ?w1 = "print (progress row n) w"
  let ?d1 = "dataset[row := concat a]"
  have p1: "\<forall>g\<in>set pre. \<exists>b. ?S ?w1 g = Inr b"
    using Cons.prems(1) by simp
  have p2: "?S ?w1 bad = Inl e"
    using Cons.prems(2) by simp
  have p3: "(row + 1) + length pre \<le> length ?d1"
    using Cons.prems(3) by simp
  have p4: "\<forall>r\<in>set ?d1. length r = final_res * final_res"
    using Cons.prems(4) len_a by (auto dest: set_update_subset_insert [THEN subsetD])
  have step: "batch_loop to_L resample final_res padding n row ((f # pre) @ bad # post) dataset w =
                batch_loop to_L resample final_res padding n (row + 1) (pre @ bad # post) ?d1 ?w1"
    unfolding append_Cons batch_loop_step a sum.case sr ..
  have u: "[row..<Suc (row + length (f # pre))] = row # [row + 1..<Suc (row + 1 + length pre)]"
  proof -
    have lt: "row < Suc (row + length (f # pre))" by simp
    have e1: "Suc row = row + 1" by simp
    have e2: "Suc (row + length (f # pre)) = Suc (row + 1 + length pre)" by simp
    show ?thesis
      using upt_conv_Cons [OF lt] unfolding e2 e1 .
  qed
  show ?case
    unfolding step Cons.IH [OF p1 p2 p3 p4] u
    by (simp add: print_def)
qed

subsection \<open>Creating the directory and saving\<close>



lemma npy_name_nonempty: "npy_name file \<noteq> []"
  by (cases "rev file") (simp_all add: npy_name_def)




lemma np_empty_props:
  "length (np_empty (n, c)) = n" "\<forall>r\<in>set (np_empty (n, c)). length r = c"
  by (simp_all add: np_empty_def)

lemma batch_preprocess_first_failure:
  assumes fl: "files_list = pre @ bad # post"
    and pre: "\<forall>f\<in>set pre. \<exists>a. sample_of to_L resample final_res padding w f = Inr a"
    and bad: "sample_of to_L resample final_res padding w bad = Inl e"
  shows "batch_preprocess to_L resample files_list dest_file final_res padding w =
           (Inl e, w\<lparr>stdout := stdout w @ map (\<lambda>row. progress row (length files_list))
                                              [0..<Suc (length pre)]\<rparr>)"
proof -
  let ?N = "length files_list"
  let ?d0 = "np_empty (?N, final_res * final_res)"
  have le: "0 + length pre \<le> length ?d0"
    unfolding np_empty_props(1) fl by simp
  have loop: "batch_loop to_L resample final_res padding ?N 0 (pre @ bad # post) ?d0 w =
      (Inl e, w\<lparr>stdout := stdout w @ map (\<lambda>i. progress i ?N) [0..<Suc (0 + length pre)]\<rparr>)"
    by (rule batch_loop_fail [OF pre bad le np_empty_props(2)])
  show ?thesis
    unfolding batch_preprocess_def Let_def
    unfolding fl [symmetric] using loop unfolding fl [symmetric]
    by simp
qed


subsection \<open>The batch driver on files\<close>

lemma sample_of_image:
  assumes "files w f = Some (ImageFile im)" and "getdata im \<noteq> []" and "0 < final_res"
  shows "\<exists>a. sample_of to_L resample final_res padding w f = Inr a
           \<and> (\<forall>figs. fst (preprocess_image to_L resample im final_res padding False figs) = Inr a)"
proof -
  have "getdata (convert_L to_L im) \<noteq> []"
    using assms(2) by (simp add: getdata_convert_L)
  from binarize_nonempty [OF this] obtain bw where
    bw: "binarize (convert_L to_L im) = Inr bw" by blast
  note r = preprocess_image_result [OF bw assms(3), of resample padding False]
  have "sample_of to_L resample final_res padding w f =
          fst (preprocess_image to_L resample im final_res padding False (figures w))"
    using assms(1) by (simp add: sample_of_def Image_open_def)
  then show ?thesis
    unfolding r by simp
qed

lemma sample_of_failure_cases:
  "sample_of to_L resample final_res padding w f = Inl e \<longleftrightarrow>
     Image_open w f = Inl e
     \<or> (\<exists>im. Image_open w f = Inr im
           \<and> fst (preprocess_image to_L resample im final_res padding False (figures w)) = Inl e)"
  by (auto simp: sample_of_def split: sum.splits)

lemma sample_world_files:
  "files sample_world [''a.png''] = Some (ImageFile sample_gray)"
  "files sample_world [''b.png''] = Some (ImageFile sample_uniform)"
  "files sample_world [''c.txt''] = Some OtherFile"
  "files sample_world [''e.png''] = Some (ImageFile empty_image)"
  "files sample_world [''data''] = None"
  "files sample_world [''data'', ''clean''] = None"
  "files sample_world [''out''] = None"
  "files sample_world [''elsewhere''] = None"
  "dirs sample_world = {}"
  by (simp_all add: sample_world_def)

lemma sample_images_nonempty:
  "getdata sample_gray \<noteq> []" "getdata sample_uniform \<noteq> []"
  by (simp_all add: sample_gray_def sample_uniform_def getdata_def)


lemma npy_name_genuine: "npy_name PATH_TRAIN_GENUINE = PATH_TRAIN_GENUINE"
  by (simp add: npy_name_def PATH_TRAIN_GENUINE_def endswith_def)




lemma sample_world_ab_ok:
  "\<forall>f\<in>set [[''a.png''], [''b.png'']]. \<exists>a. sample_of l2l nearest 2 False sample_world f = Inr a"
  using sample_of_image [OF sample_world_files(1) sample_images_nonempty(1), of 2 l2l nearest False]
    sample_of_image [OF sample_world_files(2) sample_images_nonempty(2), of 2 l2l nearest False]
  by auto

lemma sample_world_c_fails: "sample_of l2l nearest 2 False sample_world [''c.txt''] = Inl OSError"
  by (simp add: sample_of_def Image_open_def sample_world_files)









text \<open>
  Claim C8. If some file of the list fails to load or to process, then, with \<open>bad\<close> the
  first such file and \<open>e\<close> its error, \<open>batch_preprocess\<close> fails with \<open>e\<close>; the files
  after \<open>bad\<close> are not reached (progress is printed for the files up to \<open>bad\<close> only,
  and what those later files hold does not matter); and the directories and the files
  are as before the call: nothing is created and no dataset is written.
\<close>

theorem batch_preprocess_fails_fast:
  assumes "\<exists>f\<in>set files_list. \<exists>e. sample_of to_L resample final_res padding w f = Inl e"
  shows "\<exists>pre bad post e w'.
           files_list = pre @ bad # post
         \<and> (\<forall>f\<in>set pre. \<exists>a. sample_of to_L resample final_res padding w f = Inr a)
         \<and> sample_of to_L resample final_res padding w bad = Inl e
         \<and> batch_preprocess to_L resample files_list dest_file final_res padding w = (Inl e, w')
         \<and> dirs w' = dirs w \<and> files w' = files w \<and> figures w' = figures w
         \<and> stdout w' = stdout w @ map (\<lambda>row. progress row (length files_list))
                                       [0..<Suc (length pre)]"
proof -
  let ?S = "sample_of to_L resample final_res padding w"
  from split_list_first_prop [OF assms] obtain pre bad post where
    s: "files_list = pre @ bad # post" "\<exists>e. ?S bad = Inl e"
       "\<forall>f\<in>set pre. \<not> (\<exists>e. ?S f = Inl e)"
    by blast
  from s(2) obtain e where e: "?S bad = Inl e" by blast
  have pre: "\<forall>f\<in>set pre. \<exists>a. ?S f = Inr a"
  proof
    fix f assume "f \<in> set pre"
    with s(3) have "\<not> (\<exists>e. ?S f = Inl e)" by blast
    then show "\<exists>a. ?S f = Inr a" by (cases "?S f") auto
  qed
  let ?w' = "w\<lparr>stdout := stdout w @ map (\<lambda>row. progress row (length files_list))
                                            [0..<Suc (length pre)]\<rparr>"
  have r: "batch_preprocess to_L resample files_list dest_file final_res padding w = (Inl e, ?w')"
    by (rule batch_preprocess_first_failure [OF s(1) pre e])
  have "dirs ?w' = dirs w \<and> files ?w' = files w \<and> figures ?w' = figures w
          \<and> stdout ?w' = stdout w @ map (\<lambda>row. progress row (length files_list))
                                         [0..<Suc (length pre)]"
    by simp
  with s(1) pre e r show ?thesis by blast
qed

theorem batch_preprocess_fails_fast_witness:
  "sample_of l2l nearest 2 False sample_world [''c.txt''] = Inl OSError
   \<and> fst (batch_preprocess l2l nearest [[''a.png''], [''c.txt''], [''b.png'']]
            PATH_TRAIN_GENUINE 2 False sample_world) = Inl OSError
   \<and> files (snd (batch_preprocess l2l nearest [[''a.png''], [''c.txt''], [''b.png'']]
                     PATH_TRAIN_GENUINE 2 False sample_world)) = files sample_world
   \<and> dirs (snd (batch_preprocess l2l nearest [[''a.png''], [''c.txt''], [''b.png'']]
                    PATH_TRAIN_GENUINE 2 False sample_world)) = {}
   \<and> np_load (snd (batch_preprocess l2l nearest [[''a.png''], [''c.txt''], [''b.png'']]
                       PATH_TRAIN_GENUINE 2 False sample_world)) (npy_name PATH_TRAIN_GENUINE)
       = Inl FileNotFoundError"
proof -
  let ?fl = "[[''a.png''], [''c.txt''], [''b.png'' :: string]]"
  have "\<exists>f\<in>set ?fl. \<exists>e. sample_of l2l nearest 2 False sample_world f = Inl e"
    using sample_world_c_fails by simp
  from batch_preprocess_fails_fast [OF this, of PATH_TRAIN_GENUINE]
  obtain pre bad post e w' where
    s: "?fl = pre @ bad # post"
    and bad: "sample_of l2l nearest 2 False sample_world bad = Inl e"
    and r: "batch_preprocess l2l nearest ?fl PATH_TRAIN_GENUINE 2 False sample_world = (Inl e, w')"
    and same: "dirs w' = dirs sample_world" "files w' = files sample_world"
    by blast
  have "bad \<in> set (pre @ bad # post)" by simp
  then have "bad \<in> set ?fl" unfolding s [symmetric] .
  then have "bad = [''a.png''] \<or> bad = [''c.txt''] \<or> bad = [''b.png'']" by simp
  with bad sample_world_ab_ok sample_world_c_fails have e: "e = OSError" by auto
  have nl: "np_load w' (npy_name PATH_TRAIN_GENUINE) = Inl FileNotFoundError"
    unfolding npy_name_genuine
    by (simp add: np_load_def same sample_world_def PATH_TRAIN_GENUINE_def)
  have d: "dirs w' = {}" unfolding same by (simp add: sample_world_def)
  show ?thesis
    unfolding r using e same(2) d nl sample_world_c_fails by simp
qed

end
